theory Spec2Isabelle
  imports Complex_Main
begin

section \<open>Data model of the crawler (src/main.py)\<close>

text \<open>
  The program is an asyncio application: every coroutine runs without interruption from
  one suspension point (an \<^verbatim>\<open>await\<close> that really waits) to the next.  The
  embedding therefore cuts each coroutine at its \<^verbatim>\<open>await\<close>s into blocks, every
  block a function on the state the coroutines share, and lets a schedule choose which
  task runs its next block.  Regions under \<^verbatim>\<open>visited_lock\<close>,
  \<^verbatim>\<open>backoff_lock\<close> and \<^verbatim>\<open>session_lock\<close> contain no
  \<^verbatim>\<open>await\<close>, so each lies inside one block.

  Python integers are \<open>int\<close>.  The wait times are Python floats; they are modelled by
  exact rationals, so rounding of the last bit is not represented.
\<close>

text \<open>Exceptions that the modelled code can raise.\<close>

datatype exn =
    KeyError string   \<comment> \<open>a missing dictionary key, the key as argument\<close>
  | ValueError        \<comment> \<open>\<^verbatim>\<open>Queue.task_done()\<close> called too many times\<close>
  | RequestError      \<comment> \<open>any exception of \<^verbatim>\<open>client.get\<close> that is not \<^verbatim>\<open>httpx.HTTPStatusError\<close>\<close>

text \<open>A frontier item \<^verbatim>\<open>{"url": ..., "depth": ...}\<close>.\<close>

record item =
  item_url :: string
  item_depth :: int

text \<open>A message \<^verbatim>\<open>{"visited": url, "links": [...], "depth": depth}\<close> for the data stream.\<close>

record message =
  msg_visited :: string
  msg_links :: "string list"
  msg_depth :: int

text \<open>
  \<^verbatim>\<open>asyncio.Queue\<close> as far as the program uses it: the queued items and the
  counter of unfinished tasks, which \<^verbatim>\<open>put\<close> increments, \<^verbatim>\<open>task_done\<close>
  decrements (raising \<^verbatim>\<open>ValueError\<close> when it is not positive) and
  \<^verbatim>\<open>join\<close> waits to reach zero.
\<close>

record queue =
  items :: "item list"
  unfinished :: int

definition put :: "queue \<Rightarrow> item \<Rightarrow> queue" where
  "put q x = q\<lparr>items := items q @ [x], unfinished := unfinished q + 1\<rparr>"

definition task_done :: "queue \<Rightarrow> exn + queue" where
  "task_done q =
     (if unfinished q \<le> 0 then Inl ValueError
      else Inr (q\<lparr>unfinished := unfinished q - 1\<rparr>))"

definition joined :: "queue \<Rightarrow> bool" where
  \<comment> \<open>\<^verbatim>\<open>url_queue.join()\<close> returns only in such a state\<close>
  "joined q \<longleftrightarrow> unfinished q = 0"

text \<open>The \<^verbatim>\<open>backoff\<close> dictionary of a crawl.\<close>

record backoff_state =
  wait :: rat
  consecutive_failures :: int

text \<open>
  The objects that \<^verbatim>\<open>crawl\<close> creates and hands to every worker.  The message queue
  is only ever appended to and read from the front, so it is a list.
\<close>

record shared =
  url_queue :: queue
  run_flag :: bool
  visited :: "string set"
  message_queue :: "message list"
  backoff :: backoff_state

text \<open>The parameters of \<^verbatim>\<open>crawler\<close> that are plain values.\<close>

record params =
  base_url :: string
  max_depth :: int
  max_attempts :: int
  min_wait :: rat

section \<open>The backoff controller\<close>

text \<open>\<^verbatim>\<open>backoff_calculator\<close>: the new dictionary and the returned wait.\<close>

definition backoff_calculator :: "backoff_state \<Rightarrow> bool \<Rightarrow> rat \<Rightarrow> backoff_state \<times> rat" where
  "backoff_calculator b failed mw =
     (let b' =
        (if failed then
           b\<lparr>wait := wait b * 2, consecutive_failures := consecutive_failures b + 1\<rparr>
         else
           (if wait b > mw then b\<lparr>wait := wait b * (8 / 10)\<rparr> else b)
             \<lparr>consecutive_failures := 0\<rparr>)
      in (b', wait b'))"

text \<open>The state after a sequence of calls, one flag per call.\<close>

fun backoff_calls :: "backoff_state \<Rightarrow> rat \<Rightarrow> bool list \<Rightarrow> backoff_state" where
  "backoff_calls b mw [] = b"
| "backoff_calls b mw (failed # rest) = backoff_calls (fst (backoff_calculator b failed mw)) mw rest"

text \<open>The dictionary that \<^verbatim>\<open>crawl\<close> starts every session with, and its \<^verbatim>\<open>min_wait\<close>.\<close>

definition initial_backoff :: backoff_state where
  "initial_backoff = \<lparr>wait = 25 / 100, consecutive_failures = 0\<rparr>"

definition crawl_min_wait :: rat where
  "crawl_min_wait = 1 / 10"

section \<open>The worker\<close>

text \<open>
  What one \<^verbatim>\<open>await client.get(url)\<close> followed by
  \<^verbatim>\<open>response.raise_for_status()\<close> can do, as the \<^verbatim>\<open>try\<close> statement of
  \<^verbatim>\<open>crawler\<close> sees it.  The order in which Python iterates over a set of strings
  is not fixed by the program (it depends on the hashes and on the size of the set), and
  it need not be the same for \<^verbatim>\<open>links\<close> and for \<^verbatim>\<open>links - visited\<close>; so both
  orders come with the response, as choices of the environment.
\<close>

datatype outcome =
    Success "string list" "string list" "string list"
      \<comment> \<open>no exception; the \<^verbatim>\<open>href\<close> values of the anchors of \<^verbatim>\<open>response.text\<close>, in document
        order, then the order in which Python iterates the set \<^verbatim>\<open>links\<close> for
        \<^verbatim>\<open>list(links)\<close>, then the order in which it iterates \<^verbatim>\<open>links - visited\<close>\<close>
  | HTTPStatusError int
      \<comment> \<open>\<^verbatim>\<open>raise_for_status\<close> raised; the argument is \<^verbatim>\<open>e.response.status_code\<close>\<close>
  | OtherException
      \<comment> \<open>any other exception, such as a connection error or a timeout\<close>

text \<open>Where a worker is suspended.\<close>

datatype pc =
    WaitRunFlag   \<comment> \<open>\<^verbatim>\<open>await run_flag.wait()\<close>\<close>
  | WaitItem      \<comment> \<open>\<^verbatim>\<open>await url_queue.get()\<close>\<close>
  | Sleeping      \<comment> \<open>\<^verbatim>\<open>await asyncio.sleep(min_wait)\<close>\<close>
  | Fetching      \<comment> \<open>\<^verbatim>\<open>await client.get(url)\<close>\<close>
  | BackingOff    \<comment> \<open>\<^verbatim>\<open>await asyncio.sleep(wait_time)\<close>\<close>
  | Failed exn    \<comment> \<open>the coroutine was left by an exception\<close>

text \<open>
  The local variables of one \<^verbatim>\<open>crawler\<close> coroutine, and \<open>client\<close>: the URLs its
  \<^verbatim>\<open>httpx.AsyncClient\<close> was asked to get, oldest first.
\<close>

record worker =
  pc :: pc
  url :: string
  depth :: int
  attempts :: int
  client :: "string list"

definition skip_codes :: "int list" where
  "skip_codes = [301, 302, 400, 401, 403, 404]"

definition backoff_codes :: "int list" where
  "backoff_codes = [429, 500, 502, 503, 504]"

definition startswith :: "string \<Rightarrow> string \<Rightarrow> bool" where
  "startswith s pre \<longleftrightarrow> take (length pre) s = pre"

text \<open>
  The elements of a Python set, given by a list \<open>xs\<close> of its elements, in an iteration
  order: each element once, those that \<open>order\<close> names first and in its order, the
  others after them.  Whatever \<open>order\<close> is, the result enumerates the set; an \<open>order\<close>
  that enumerates the set is the result.
\<close>

definition iterate :: "string list \<Rightarrow> string list \<Rightarrow> string list" where
  "iterate order xs =
     filter (\<lambda>x. x \<in> set xs) (remdups order) @ filter (\<lambda>x. x \<notin> set order) (remdups xs)"

text \<open>
  \<^verbatim>\<open>url_queue.task_done()\<close> followed by \<^verbatim>\<open>continue\<close> or \<^verbatim>\<open>break\<close>: both
  lead to the head of the outer loop.
\<close>

definition acknowledge :: "shared \<Rightarrow> worker \<Rightarrow> shared \<times> worker" where
  "acknowledge sh w =
     (case task_done (url_queue sh) of
        Inl e \<Rightarrow> (sh, w\<lparr>pc := Failed e\<rparr>)
      | Inr q \<Rightarrow> (sh\<lparr>url_queue := q\<rparr>, w\<lparr>pc := WaitRunFlag\<rparr>))"

text \<open>
  From the return of \<^verbatim>\<open>url_queue.get()\<close> to the politeness sleep: the depth filter
  and the check-then-add on the visited set.  With an empty queue the worker stays
  suspended.
\<close>

definition crawler_take_item :: "params \<Rightarrow> shared \<times> worker \<Rightarrow> shared \<times> worker" where
  "crawler_take_item p = (\<lambda>(sh, w).
     (case items (url_queue sh) of
        [] \<Rightarrow> (sh, w)
      | next_url # rest \<Rightarrow>
          (let sh1 = sh\<lparr>url_queue := (url_queue sh)\<lparr>items := rest\<rparr>\<rparr>;
               w1 = w\<lparr>depth := item_depth next_url\<rparr>
           in if depth w1 > max_depth p then acknowledge sh1 w1
              else
                (let w2 = w1\<lparr>url := item_url next_url\<rparr>
                 in if url w2 \<in> visited sh1 then acknowledge sh1 w2
                    else (sh1\<lparr>visited := insert (url w2) (visited sh1)\<rparr>,
                          w2\<lparr>pc := Sleeping\<rparr>)))))"

text \<open>
  The head of the retry loop up to \<^verbatim>\<open>client.get\<close>: the test of \<^verbatim>\<open>attempts\<close>
  against \<^verbatim>\<open>max_attempts\<close>, the increment and the request.
\<close>

definition crawler_attempt :: "params \<Rightarrow> shared \<times> worker \<Rightarrow> shared \<times> worker" where
  "crawler_attempt p = (\<lambda>(sh, w).
     if attempts w > max_attempts p then acknowledge sh w
     else (sh, w\<lparr>attempts := attempts w + 1, client := client w @ [url w], pc := Fetching\<rparr>))"

text \<open>
  From the return of \<^verbatim>\<open>client.get\<close> to the next suspension: the body of the
  \<^verbatim>\<open>try\<close> and its \<^verbatim>\<open>except httpx.HTTPStatusError\<close> handler.  The list
  \<open>links\<close> is \<^verbatim>\<open>list(links)\<close>, the set in the first order of the response; the list
  \<open>links'\<close> is the set \<^verbatim>\<open>links - visited\<close> as the \<^verbatim>\<open>for\<close> loop iterates it, in
  the second order.
\<close>

definition crawler_on_response :: "params \<Rightarrow> outcome \<Rightarrow> shared \<times> worker \<Rightarrow> shared \<times> worker" where
  "crawler_on_response p out = (\<lambda>(sh, w).
     (case out of
        Success hrefs order order' \<Rightarrow>
          (let sh1 = sh\<lparr>backoff := fst (backoff_calculator (backoff sh) False (min_wait p))\<rparr>;
               links = iterate order (filter (\<lambda>h. startswith h (base_url p)) hrefs);
               sh2 = sh1\<lparr>message_queue := message_queue sh1 @
                        [\<lparr>msg_visited = url w, msg_links = links, msg_depth = depth w\<rparr>]\<rparr>;
               links' = iterate order' (filter (\<lambda>l. l \<notin> visited sh2) links);
               sh3 = sh2\<lparr>url_queue := foldl put (url_queue sh2)
                        (map (\<lambda>link. \<lparr>item_url = link, item_depth = depth w + 1\<rparr>) links')\<rparr>
           in acknowledge sh3 w)
      | HTTPStatusError code \<Rightarrow>
          if code \<in> set skip_codes then
            acknowledge
              (sh\<lparr>message_queue := message_queue sh @
                  [\<lparr>msg_visited = url w, msg_links = [], msg_depth = depth w\<rparr>]\<rparr>) w
          else if code \<in> set backoff_codes then
            (sh\<lparr>backoff := fst (backoff_calculator (backoff sh) True (min_wait p))\<rparr>,
             w\<lparr>pc := BackingOff\<rparr>)
          else (sh, w\<lparr>pc := WaitRunFlag\<rparr>)
      | OtherException \<Rightarrow> (sh, w\<lparr>pc := Failed RequestError\<rparr>)))"

text \<open>
  One block of a worker, chosen by where it is suspended.  The outcome is that of the
  pending request and is read only by a worker that waits for one.
\<close>

definition crawler :: "params \<Rightarrow> outcome \<Rightarrow> shared \<times> worker \<Rightarrow> shared \<times> worker" where
  "crawler p out = (\<lambda>(sh, w).
     (case pc w of
        WaitRunFlag \<Rightarrow> if run_flag sh then (sh, w\<lparr>pc := WaitItem\<rparr>) else (sh, w)
      | WaitItem \<Rightarrow> crawler_take_item p (sh, w)
      | Sleeping \<Rightarrow> crawler_attempt p (sh, w\<lparr>attempts := 0\<rparr>)
      | Fetching \<Rightarrow> crawler_on_response p out (sh, w)
      | BackingOff \<Rightarrow> crawler_attempt p (sh, w)
      | Failed e \<Rightarrow> (sh, w)))"

section \<open>Stopping a session\<close>

text \<open>
  The loop of \<^verbatim>\<open>stop_session\<close>: \<^verbatim>\<open>get_nowait\<close> and \<^verbatim>\<open>task_done\<close> until
  the queue is empty.  An exception leaves the queue as it is at that moment.
\<close>

function drain :: "queue \<Rightarrow> queue \<times> exn option" where
  "drain q =
     (if items q = [] then (q, None)
      else
        (let q1 = q\<lparr>items := tl (items q)\<rparr>
         in case task_done q1 of
              Inl e \<Rightarrow> (q1, Some e)
            | Inr q2 \<Rightarrow> drain q2))"
  by pat_completeness auto
termination
  by (relation "measure (\<lambda>q. length (items q))")
     (auto simp: task_done_def split: if_splits)

declare drain.simps [simp del]

text \<open>
  An entry of the \<^verbatim>\<open>sessions\<close> dictionary: the \<^verbatim>\<open>"url"\<close> that
  \<^verbatim>\<open>set_session\<close> stores, and the objects of the crawl once \<^verbatim>\<open>crawl\<close> has
  stored \<^verbatim>\<open>"message_queue"\<close>, \<^verbatim>\<open>"url_queue"\<close> and \<^verbatim>\<open>"run_flag"\<close> (in one
  block; the visited set and the backoff dictionary are kept with them although no
  endpoint can reach them).
\<close>

record entry =
  entry_url :: string
  objects :: "shared option"

type_synonym sessions = "string \<rightharpoonup> entry"

text \<open>\<^verbatim>\<open>set_session\<close>, the fresh \<^verbatim>\<open>uuid4\<close> key given.\<close>

definition set_session :: "sessions \<Rightarrow> string \<Rightarrow> string \<Rightarrow> sessions" where
  "set_session ss session_key u = ss(session_key \<mapsto> \<lparr>entry_url = u, objects = None\<rparr>)"

text \<open>The objects and constants of \<^verbatim>\<open>crawl\<close>, with the start URL queued.\<close>

definition crawl_objects :: "string \<Rightarrow> shared" where
  "crawl_objects base =
     \<lparr>url_queue = put \<lparr>items = [], unfinished = 0\<rparr> \<lparr>item_url = base, item_depth = 0\<rparr>,
      run_flag = True, visited = {}, message_queue = [], backoff = initial_backoff\<rparr>"

definition crawl_params :: "string \<Rightarrow> int \<Rightarrow> params" where
  "crawl_params base md =
     \<lparr>base_url = base, max_depth = md, max_attempts = 8, min_wait = crawl_min_wait\<rparr>"

definition crawl_workers :: "worker list" where
  "crawl_workers = replicate 2 \<lparr>pc = WaitRunFlag, url = [], depth = 0, attempts = 0, client = []\<rparr>"

text \<open>\<^verbatim>\<open>crawl\<close> up to \<^verbatim>\<open>await url_queue.join()\<close>, as far as the registry goes.\<close>

definition crawl :: "sessions \<Rightarrow> string \<Rightarrow> exn + sessions" where
  "crawl ss session_key =
     (case ss session_key of
        None \<Rightarrow> Inl (KeyError session_key)
      | Some e \<Rightarrow> Inr (ss(session_key \<mapsto> e\<lparr>objects := Some (crawl_objects (entry_url e))\<rparr>)))"

text \<open>
  \<^verbatim>\<open>stop_session\<close>.  The function \<open>during\<close> is what the other tasks do to the objects
  of this session while \<^verbatim>\<open>stop_session\<close> sleeps for two seconds.  The result is the
  registry and either the exception that leaves the handler or the returned dictionary.
\<close>

definition stop_session ::
  "(shared \<Rightarrow> shared) \<Rightarrow> sessions \<Rightarrow> string \<Rightarrow> sessions \<times> (exn + (string \<times> string) list)" where
  "stop_session during ss session_key =
     (case ss session_key of
        None \<Rightarrow> (ss, Inl (KeyError session_key))
      | Some e \<Rightarrow>
          (case objects e of
             None \<Rightarrow> (ss, Inl (KeyError ''url_queue''))
           | Some sh \<Rightarrow>
               (let sh1 = during (sh\<lparr>run_flag := False\<rparr>);
                    (q, err) = drain (url_queue sh1);
                    ss' = ss(session_key \<mapsto> e\<lparr>objects := Some (sh1\<lparr>url_queue := q\<rparr>)\<rparr>)
                in case err of
                     Some x \<Rightarrow> (ss', Inl x)
                   | None \<Rightarrow> (ss', Inr [(''status'', ''Success'')]))))"

text \<open>
  \<^verbatim>\<open>data_stream\<close> up to the creation of the response: the lookup of the message queue
  that the stream will read.
\<close>

definition data_stream :: "sessions \<Rightarrow> string \<Rightarrow> exn + message list" where
  "data_stream ss session_key =
     (case ss session_key of
        None \<Rightarrow> Inl (KeyError session_key)
      | Some e \<Rightarrow>
          (case objects e of
             None \<Rightarrow> Inl (KeyError ''message_queue'')
           | Some sh \<Rightarrow> Inr (message_queue sh)))"

section \<open>A session under a schedule\<close>

text \<open>
  The tasks that act on the objects of one session: its workers, and a
  \<^verbatim>\<open>stop_session\<close> request with its two blocks.  A schedule is the list of the
  blocks that run, in order; a worker's block comes with the outcome of its pending
  request.
\<close>

datatype move = Worker nat outcome | StopPause | StopDrain

definition step :: "params \<Rightarrow> move \<Rightarrow> shared \<times> worker list \<Rightarrow> shared \<times> worker list" where
  "step p m = (\<lambda>(sh, ws).
     (case m of
        Worker i out \<Rightarrow>
          if i < length ws then
            (let (sh', w') = crawler p out (sh, ws ! i) in (sh', ws[i := w']))
          else (sh, ws)
      | StopPause \<Rightarrow> (sh\<lparr>run_flag := False\<rparr>, ws)
      | StopDrain \<Rightarrow> (sh\<lparr>url_queue := fst (drain (url_queue sh))\<rparr>, ws)))"

fun run :: "params \<Rightarrow> move list \<Rightarrow> shared \<times> worker list \<Rightarrow> shared \<times> worker list" where
  "run p [] s = s"
| "run p (m # ms) s = run p ms (step p m s)"

text \<open>
  The URL whose retry loop a move starts: the move takes a worker from the politeness
  sleep to its first \<^verbatim>\<open>client.get\<close> for the item.
\<close>

definition started :: "params \<Rightarrow> move \<Rightarrow> shared \<times> worker list \<Rightarrow> string list" where
  "started p m s =
     (case m of
        Worker i out \<Rightarrow>
          if i < length (snd s) \<and> pc (snd s ! i) = Sleeping \<and> pc (snd (step p m s) ! i) = Fetching
          then [url (snd s ! i)] else []
      | _ \<Rightarrow> [])"

fun fetches :: "params \<Rightarrow> move list \<Rightarrow> shared \<times> worker list \<Rightarrow> string list" where
  "fetches p [] s = []"
| "fetches p (m # ms) s = started p m s @ fetches p ms (step p m s)"

section \<open>Example sessions\<close>

text \<open>
  A session whose start URL answers with status 418, which is in neither list of codes:
  worker 0 passes the run flag, takes the item, wakes from the politeness sleep and
  receives the response.
\<close>

definition unclassified_run :: "shared \<times> worker list" where
  "unclassified_run =
     run (crawl_params ''http://a/'' 1)
       [Worker 0 (Success [] [] []), Worker 0 (Success [] [] []), Worker 0 (Success [] [] []),
        Worker 0 (HTTPStatusError 418)]
       (crawl_objects ''http://a/'', crawl_workers)"

text \<open>The same session when \<^verbatim>\<open>client.get\<close> raises a connection error instead.\<close>

definition transport_error_run :: "shared \<times> worker list" where
  "transport_error_run =
     run (crawl_params ''http://a/'' 1)
       [Worker 0 (Success [] [] []), Worker 0 (Success [] [] []), Worker 0 (Success [] [] []),
        Worker 0 OtherException]
       (crawl_objects ''http://a/'', crawl_workers)"

text \<open>
  A worker that holds no item: it waits for the flag or for an item, or it has been left
  by an exception.
\<close>

definition idle :: "pc \<Rightarrow> bool" where
  "idle c \<longleftrightarrow> (case c of WaitRunFlag \<Rightarrow> True | WaitItem \<Rightarrow> True | Failed e \<Rightarrow> True | _ \<Rightarrow> False)"

text \<open>
  A session with one unfinished task, nothing queued and no worker holding an item.
\<close>

definition orphaned :: "shared \<times> worker list \<Rightarrow> bool" where
  "orphaned s \<longleftrightarrow>
     items (url_queue (fst s)) = [] \<and> unfinished (url_queue (fst s)) = 1 \<and>
     (\<forall>w \<in> set (snd s). idle (pc w))"

text \<open>A registry with one running session, two items in its frontier and a third in flight.\<close>

definition registry :: sessions where
  "registry =
     [''k'' \<mapsto> \<lparr>entry_url = ''http://a/'',
        objects = Some \<lparr>url_queue =
            \<lparr>items = [\<lparr>item_url = ''http://a/x'', item_depth = 1\<rparr>,
                      \<lparr>item_url = ''http://a/y'', item_depth = 1\<rparr>], unfinished = 3\<rparr>,
          run_flag = True, visited = {''http://a/''},
          message_queue = [\<lparr>msg_visited = ''http://a/'',
             msg_links = [''http://a/x'', ''http://a/y''], msg_depth = 0\<rparr>],
          backoff = initial_backoff\<rparr>\<rparr>]"






section \<open>Bookkeeping for the fetch history\<close>

text \<open>
  The invariant behind the fetch history, for a set \<open>F\<close> of URLs whose retry loop has
  started: they are all in the visited set; a worker in its politeness sleep holds a
  visited URL that is not in \<open>F\<close>, and no two such workers hold the same; a worker
  inside the retry loop holds a URL of \<open>F\<close>; every client has only asked for URLs
  of \<open>F\<close>.
\<close>

definition fetch_inv :: "shared \<times> worker list \<Rightarrow> string set \<Rightarrow> bool" where
  "fetch_inv s F \<longleftrightarrow>
     F \<subseteq> visited (fst s) \<and>
     (\<forall>i < length (snd s).
        (pc (snd s ! i) = Sleeping \<longrightarrow>
           url (snd s ! i) \<in> visited (fst s) \<and> url (snd s ! i) \<notin> F) \<and>
        (pc (snd s ! i) = Fetching \<or> pc (snd s ! i) = BackingOff \<longrightarrow> url (snd s ! i) \<in> F) \<and>
        set (client (snd s ! i)) \<subseteq> F) \<and>
     (\<forall>i < length (snd s). \<forall>j < length (snd s).
        i \<noteq> j \<and> pc (snd s ! i) = Sleeping \<and> pc (snd s ! j) = Sleeping \<longrightarrow>
          url (snd s ! i) \<noteq> url (snd s ! j))"

text \<open>Where \<open>acknowledge\<close> leaves a worker.\<close>

definition parked :: "pc \<Rightarrow> bool" where
  "parked c \<longleftrightarrow> c = WaitRunFlag \<or> (\<exists>e. c = Failed e)"

text \<open>
  What one block can do to a worker and to the visited set: claim a new URL, send the
  first request for it, back off after a request, or none of these.
\<close>

definition effect :: "shared \<Rightarrow> worker \<Rightarrow> shared \<Rightarrow> worker \<Rightarrow> bool" where
  "effect sh w sh' w' \<longleftrightarrow>
     pc w' = Sleeping \<and> pc w = WaitItem \<and> url w' \<notin> visited sh \<and>
       visited sh' = insert (url w') (visited sh) \<and> client w' = client w \<or>
     pc w' = Fetching \<and> (pc w = Sleeping \<or> pc w = BackingOff) \<and> url w' = url w \<and>
       client w' = client w @ [url w] \<and> visited sh' = visited sh \<or>
     pc w' = BackingOff \<and> pc w = Fetching \<and> url w' = url w \<and>
       client w' = client w \<and> visited sh' = visited sh \<or>
     pc w' \<noteq> Sleeping \<and> pc w' \<noteq> Fetching \<and> pc w' \<noteq> BackingOff \<and>
       client w' = client w \<and> visited sh' = visited sh"

text \<open>
  A schedule for two workers on a site whose pages \<^verbatim>\<open>/x\<close> and \<^verbatim>\<open>/y\<close> both
  link to \<^verbatim>\<open>/z\<close>, so that \<^verbatim>\<open>/z\<close> is queued twice; its first fetch is answered
  with 503 and retried.
\<close>

definition race_schedule :: "move list" where
  "race_schedule =
     [Worker 0 (Success [] [] []), Worker 0 (Success [] [] []), Worker 0 (Success [] [] []),
      Worker 0 (Success [''http://a/x'', ''http://a/y''] [] []),
      Worker 0 (Success [] [] []), Worker 1 (Success [] [] []),
      Worker 0 (Success [] [] []), Worker 1 (Success [] [] []),
      Worker 0 (Success [] [] []), Worker 1 (Success [] [] []),
      Worker 0 (Success [''http://a/z''] [] []),
      Worker 1 (Success [''http://a/z'', ''http://a/x''] [] []),
      Worker 0 (Success [] [] []), Worker 1 (Success [] [] []),
      Worker 0 (Success [] [] []), Worker 1 (Success [] [] []),
      Worker 0 (Success [] [] []),
      Worker 0 (HTTPStatusError 503),
      Worker 0 (Success [] [] []),
      Worker 0 (Success [] [] [])]"

section \<open>Bookkeeping for the counter of unfinished tasks\<close>

text \<open>A worker between the check-then-add and the end of its retry loop holds an item.\<close>

definition holding :: "pc \<Rightarrow> bool" where
  "holding c \<longleftrightarrow> c = Sleeping \<or> c = Fetching \<or> c = BackingOff"

text \<open>The number of workers that hold an item.\<close>

definition held :: "worker list \<Rightarrow> int" where
  "held ws = (\<Sum>w\<leftarrow>ws. if holding (pc w) then 1 else 0)"

text \<open>
  The queued items and the item of one worker, less the counter: no block of the worker
  lets this grow.
\<close>

definition debt :: "shared \<Rightarrow> worker \<Rightarrow> int" where
  "debt sh w =
     int (length (items (url_queue sh))) + (if holding (pc w) then 1 else 0) -
     unfinished (url_queue sh)"

text \<open>
  The counter covers the queued and the held items, and no worker has been left by the
  \<^verbatim>\<open>ValueError\<close> of \<^verbatim>\<open>task_done\<close>.
\<close>

definition queue_inv :: "shared \<times> worker list \<Rightarrow> bool" where
  "queue_inv s \<longleftrightarrow>
     int (length (items (url_queue (fst s)))) + held (snd s) \<le> unfinished (url_queue (fst s)) \<and>
     (\<forall>w \<in> set (snd s). pc w \<noteq> Failed ValueError)"

section \<open>Properties\<close>

subsection \<open>Backoff\<close>

lemma backoff_calculator_failed:
  "backoff_calculator b True mw =
     (b\<lparr>wait := wait b * 2, consecutive_failures := consecutive_failures b + 1\<rparr>, wait b * 2)"
  by (simp add: backoff_calculator_def)

lemma backoff_calculator_success_failures:
  "consecutive_failures (fst (backoff_calculator b False mw)) = 0"
  by (simp add: backoff_calculator_def)

text \<open>
  C2.  The claim: a failure doubles the wait and counts it, a success multiplies a wait
  above \<^verbatim>\<open>min_wait\<close> by 0.8, clamped at \<^verbatim>\<open>min_wait\<close>, and the wait never
  falls below \<^verbatim>\<open>min_wait\<close>.  The code has no clamp: with the values of
  \<^verbatim>\<open>crawl\<close> (wait 0.25, \<^verbatim>\<open>min_wait\<close> 0.1) the fifth success in a row
  multiplies 0.1024 by 0.8 and leaves the wait at 0.08192, below \<^verbatim>\<open>min_wait\<close>.
\<close>

theorem backoff_below_min_wait:
  "wait (backoff_calls initial_backoff crawl_min_wait [False, False, False, False]) = 1024 / 10000 \<and>
   wait (backoff_calls initial_backoff crawl_min_wait [False, False, False, False, False]) = 8192 / 100000 \<and>
   wait (backoff_calls initial_backoff crawl_min_wait [False, False, False, False, False]) < crawl_min_wait"
  by (simp add: backoff_calculator_def initial_backoff_def crawl_min_wait_def)

lemma acknowledge_ok:
  "0 < unfinished (url_queue sh) \<Longrightarrow>
   acknowledge sh w =
     (sh\<lparr>url_queue := (url_queue sh)\<lparr>unfinished := unfinished (url_queue sh) - 1\<rparr>\<rparr>,
      w\<lparr>pc := WaitRunFlag\<rparr>)"
  by (simp add: acknowledge_def task_done_def)

subsection \<open>The depth filter\<close>

text \<open>
  C4.  A worker that takes an item whose depth exceeds \<^verbatim>\<open>max_depth\<close> acknowledges
  it and returns to the head of its loop.  Nothing else changes: the visited set and the
  message queue are as before (whether or not the URL is in the visited set), and the
  worker's client has sent no request.  The fourth assumption, a positive counter of
  unfinished tasks, holds whenever a session's queue is not empty (lemma
  \<open>unfinished_covers_items\<close> below); without it \<^verbatim>\<open>task_done\<close> would raise.
\<close>

theorem over_depth_discarded:
  assumes "pc w = WaitItem"
    and "items (url_queue sh) = next_url # rest"
    and "item_depth next_url > max_depth p"
    and "0 < unfinished (url_queue sh)"
  shows "crawler p out (sh, w) =
     (sh\<lparr>url_queue := \<lparr>items = rest, unfinished = unfinished (url_queue sh) - 1\<rparr>\<rparr>,
      w\<lparr>depth := item_depth next_url, pc := WaitRunFlag\<rparr>)"
  using assms by (simp add: crawler_def crawler_take_item_def acknowledge_ok)

theorem over_depth_discarded_witness:
  "crawler (crawl_params ''http://a/'' 1) (Success [''http://a/y''] [] [])
     (\<lparr>url_queue = \<lparr>items = [\<lparr>item_url = ''http://a/x'', item_depth = 2\<rparr>], unfinished = 1\<rparr>,
       run_flag = True, visited = {''http://a/''}, message_queue = [], backoff = initial_backoff\<rparr>,
      \<lparr>pc = WaitItem, url = ''http://a/'', depth = 0, attempts = 1, client = [''http://a/'']\<rparr>) =
     (\<lparr>url_queue = \<lparr>items = [], unfinished = 0\<rparr>,
       run_flag = True, visited = {''http://a/''}, message_queue = [], backoff = initial_backoff\<rparr>,
      \<lparr>pc = WaitRunFlag, url = ''http://a/'', depth = 2, attempts = 1, client = [''http://a/'']\<rparr>)"
  using over_depth_discarded [of
      "\<lparr>pc = WaitItem, url = ''http://a/'', depth = 0, attempts = 1, client = [''http://a/'']\<rparr>"
      "\<lparr>url_queue = \<lparr>items = [\<lparr>item_url = ''http://a/x'', item_depth = 2\<rparr>], unfinished = 1\<rparr>,
       run_flag = True, visited = {''http://a/''}, message_queue = [], backoff = initial_backoff\<rparr>"
      "\<lparr>item_url = ''http://a/x'', item_depth = 2\<rparr>" "[]"
      "crawl_params ''http://a/'' 1" "Success [''http://a/y''] [] []"]
  by (simp add: crawl_params_def)

subsection \<open>Status codes of the skip class\<close>

text \<open>
  C5.  When \<^verbatim>\<open>raise_for_status\<close> raises with a status code of
  \<^verbatim>\<open>skip_codes\<close> = [301, 302, 400, 401, 403, 404], the worker appends exactly one
  message for the URL, with an empty list of links, acknowledges the item and returns to
  the head of the outer loop: its client sends no further request for the item.  The
  counter of unfinished tasks is positive while a worker holds an item (lemma
  \<open>unfinished_covers_items\<close> below).
\<close>

theorem skip_code_event:
  assumes "pc w = Fetching"
    and "code \<in> set skip_codes"
    and "0 < unfinished (url_queue sh)"
  shows "crawler p (HTTPStatusError code) (sh, w) =
     (sh\<lparr>message_queue := message_queue sh @
            [\<lparr>msg_visited = url w, msg_links = [], msg_depth = depth w\<rparr>],
         url_queue := (url_queue sh)\<lparr>unfinished := unfinished (url_queue sh) - 1\<rparr>\<rparr>,
      w\<lparr>pc := WaitRunFlag\<rparr>)"
  using assms by (simp add: crawler_def crawler_on_response_def acknowledge_ok)

theorem skip_code_event_witness:
  "crawler (crawl_params ''http://a/'' 1) (HTTPStatusError 404)
     (\<lparr>url_queue = \<lparr>items = [], unfinished = 1\<rparr>,
       run_flag = True, visited = {''http://a/''}, message_queue = [], backoff = initial_backoff\<rparr>,
      \<lparr>pc = Fetching, url = ''http://a/'', depth = 0, attempts = 1, client = [''http://a/'']\<rparr>) =
     (\<lparr>url_queue = \<lparr>items = [], unfinished = 0\<rparr>,
       run_flag = True, visited = {''http://a/''},
       message_queue = [\<lparr>msg_visited = ''http://a/'', msg_links = [], msg_depth = 0\<rparr>],
       backoff = initial_backoff\<rparr>,
      \<lparr>pc = WaitRunFlag, url = ''http://a/'', depth = 0, attempts = 1, client = [''http://a/'']\<rparr>)"
  using skip_code_event [of
      "\<lparr>pc = Fetching, url = ''http://a/'', depth = 0, attempts = 1, client = [''http://a/'']\<rparr>"
      404
      "\<lparr>url_queue = \<lparr>items = [], unfinished = 1\<rparr>,
       run_flag = True, visited = {''http://a/''}, message_queue = [], backoff = initial_backoff\<rparr>"
      "crawl_params ''http://a/'' 1"]
  by (simp add: skip_codes_def)

lemma items_foldl_put: "items (foldl put q xs) = items q @ xs"
  by (induction xs arbitrary: q) (simp_all add: put_def)

lemma items_acknowledge: "items (url_queue (fst (acknowledge sh w))) = items (url_queue sh)"
  by (simp add: acknowledge_def task_done_def)

lemma message_queue_acknowledge: "message_queue (fst (acknowledge sh w)) = message_queue sh"
  by (simp add: acknowledge_def task_done_def)

lemma visited_acknowledge: "visited (fst (acknowledge sh w)) = visited sh"
  by (simp add: acknowledge_def task_done_def)

subsection \<open>A successful fetch\<close>

lemma set_iterate: "set (iterate order xs) = set xs"
  by (auto simp: iterate_def)

lemma distinct_iterate: "distinct (iterate order xs)"
  by (auto simp: iterate_def)

lemma iterate_enumeration:
  assumes "distinct ys" and "set ys = set xs"
  shows "iterate ys xs = ys"
proof -
  from assms have "filter (\<lambda>x. x \<in> set xs) (remdups ys) = ys"
    by (simp add: distinct_remdups_id)
  moreover from assms have "filter (\<lambda>x. x \<notin> set ys) (remdups xs) = []"
    by (simp add: filter_empty_conv)
  ultimately show ?thesis by (simp add: iterate_def)
qed

text \<open>The two lists of a successful response, and the result of the block in their terms.\<close>

lemma crawler_Success:
  assumes "pc w = Fetching"
    and "links = iterate order (filter (\<lambda>h. startswith h (base_url p)) hrefs)"
    and "new = iterate order' (filter (\<lambda>l. l \<notin> visited sh) links)"
  shows "message_queue (fst (crawler p (Success hrefs order order') (sh, w))) =
      message_queue sh @ [\<lparr>msg_visited = url w, msg_links = links, msg_depth = depth w\<rparr>]"
    and "items (url_queue (fst (crawler p (Success hrefs order order') (sh, w)))) =
      items (url_queue sh) @
      map (\<lambda>link. \<lparr>item_url = link, item_depth = depth w + 1\<rparr>) new"
  using assms
  by (simp_all add: crawler_def crawler_on_response_def Let_def items_foldl_put
      items_acknowledge message_queue_acknowledge)

text \<open>
  Every pair of iteration orders can occur: for any enumeration of the links and any
  enumeration of the unvisited ones there is a response under which the message lists
  the first and the items are queued in the second.
\<close>

lemma crawler_Success_any_order:
  assumes "pc w = Fetching"
    and "distinct links" and "set links = {h \<in> set hrefs. startswith h (base_url p)}"
    and "distinct new" and "set new = {l \<in> set links. l \<notin> visited sh}"
  shows "message_queue (fst (crawler p (Success hrefs links new) (sh, w))) =
      message_queue sh @ [\<lparr>msg_visited = url w, msg_links = links, msg_depth = depth w\<rparr>] \<and>
    items (url_queue (fst (crawler p (Success hrefs links new) (sh, w)))) =
      items (url_queue sh) @
      map (\<lambda>link. \<lparr>item_url = link, item_depth = depth w + 1\<rparr>) new"
proof -
  from assms(2,3) have l: "iterate links (filter (\<lambda>h. startswith h (base_url p)) hrefs) = links"
    by (intro iterate_enumeration) auto
  from assms(4,5) have n: "iterate new (filter (\<lambda>l. l \<notin> visited sh) links) = new"
    by (intro iterate_enumeration) auto
  from crawler_Success [OF assms(1) l [symmetric] n [symmetric]] show ?thesis by simp
qed

text \<open>
  C10.  After a fetch without exception the worker appends one message for the URL whose
  links are the \<^verbatim>\<open>href\<close> values that start with the base URL, each once, those
  already in the visited set included; the items it appends to the frontier are exactly
  those of these links that are not in the visited set at that moment, each once and
  each at the depth of the page plus one.  The order of the links in the message and the
  order of the items in the frontier are those in which Python iterates the two sets:
  the statement fixes neither, nor any relation between them.
\<close>

theorem success_event_and_enqueue:
  assumes "pc w = Fetching"
  shows "\<exists>links new.
     set links = {h \<in> set hrefs. startswith h (base_url p)} \<and> distinct links \<and>
     message_queue (fst (crawler p (Success hrefs order order') (sh, w))) =
       message_queue sh @ [\<lparr>msg_visited = url w, msg_links = links, msg_depth = depth w\<rparr>] \<and>
     set new = {link \<in> set links. link \<notin> visited sh} \<and> distinct new \<and>
     items (url_queue (fst (crawler p (Success hrefs order order') (sh, w)))) =
       items (url_queue sh) @
       map (\<lambda>link. \<lparr>item_url = link, item_depth = depth w + 1\<rparr>) new"
proof -
  let ?links = "iterate order (filter (\<lambda>h. startswith h (base_url p)) hrefs)"
  let ?new = "iterate order' (filter (\<lambda>l. l \<notin> visited sh) ?links)"
  have "set ?links = {h \<in> set hrefs. startswith h (base_url p)}"
    by (auto simp: set_iterate)
  moreover have "set ?new = {link \<in> set ?links. link \<notin> visited sh}"
    by (auto simp: set_iterate)
  moreover note distinct_iterate [of order "filter (\<lambda>h. startswith h (base_url p)) hrefs"]
    distinct_iterate [of order' "filter (\<lambda>l. l \<notin> visited sh) ?links"]
    crawler_Success [OF assms refl refl, where order = order and p = p and hrefs = hrefs
      and order' = order' and sh = sh]
  ultimately show ?thesis by blast
qed

theorem success_event_and_enqueue_witness:
  "message_queue (fst (crawler (crawl_params ''http://a/'' 1)
       (Success [''http://a/x'', ''http://b/'', ''http://a/'', ''http://a/y'', ''http://a/x'']
          [''http://a/y'', ''http://a/x'', ''http://a/''] [''http://a/x'', ''http://a/y''])
       (\<lparr>url_queue = \<lparr>items = [], unfinished = 1\<rparr>,
         run_flag = True, visited = {''http://a/''}, message_queue = [], backoff = initial_backoff\<rparr>,
        \<lparr>pc = Fetching, url = ''http://a/'', depth = 0, attempts = 1, client = [''http://a/'']\<rparr>))) =
     [\<lparr>msg_visited = ''http://a/'',
       msg_links = [''http://a/y'', ''http://a/x'', ''http://a/''], msg_depth = 0\<rparr>] \<and>
   items (url_queue (fst (crawler (crawl_params ''http://a/'' 1)
       (Success [''http://a/x'', ''http://b/'', ''http://a/'', ''http://a/y'', ''http://a/x'']
          [''http://a/y'', ''http://a/x'', ''http://a/''] [''http://a/x'', ''http://a/y''])
       (\<lparr>url_queue = \<lparr>items = [], unfinished = 1\<rparr>,
         run_flag = True, visited = {''http://a/''}, message_queue = [], backoff = initial_backoff\<rparr>,
        \<lparr>pc = Fetching, url = ''http://a/'', depth = 0, attempts = 1, client = [''http://a/'']\<rparr>)))) =
     [\<lparr>item_url = ''http://a/x'', item_depth = 1\<rparr>, \<lparr>item_url = ''http://a/y'', item_depth = 1\<rparr>]"
  using success_event_and_enqueue [of
      "\<lparr>pc = Fetching, url = ''http://a/'', depth = 0, attempts = 1, client = [''http://a/'']\<rparr>"
      "[''http://a/x'', ''http://b/'', ''http://a/'', ''http://a/y'', ''http://a/x'']"
      "crawl_params ''http://a/'' 1"
      "[''http://a/y'', ''http://a/x'', ''http://a/'']" "[''http://a/x'', ''http://a/y'']"
      "\<lparr>url_queue = \<lparr>items = [], unfinished = 1\<rparr>,
         run_flag = True, visited = {''http://a/''}, message_queue = [], backoff = initial_backoff\<rparr>"]
  by (simp add: crawler_def crawler_on_response_def Let_def items_foldl_put
        items_acknowledge message_queue_acknowledge crawl_params_def startswith_def iterate_def
        put_def)

subsection \<open>The retry loop\<close>

text \<open>
  C3.  The claim bounds the fetch attempts for one item by \<^verbatim>\<open>max_attempts\<close>.
  The loop tests \<^verbatim>\<open>attempts > max_attempts\<close> before it increments, so with
  \<^verbatim>\<open>max_attempts = 8\<close> and a server that always answers 503 the client is asked
  nine times for the URL before the item is given up.  The item is then acknowledged and
  no message is queued for it, as the claim says.
\<close>

theorem retry_loop_nine_requests:
  "max_attempts (crawl_params ''http://a/'' 1) = 8 \<and>
   client (snd (run (crawl_params ''http://a/'' 1)
       (replicate 21 (Worker 0 (HTTPStatusError 503)))
       (crawl_objects ''http://a/'', crawl_workers)) ! 0) = replicate 9 ''http://a/'' \<and>
   pc (snd (run (crawl_params ''http://a/'' 1)
       (replicate 21 (Worker 0 (HTTPStatusError 503)))
       (crawl_objects ''http://a/'', crawl_workers)) ! 0) = WaitRunFlag \<and>
   message_queue (fst (run (crawl_params ''http://a/'' 1)
       (replicate 21 (Worker 0 (HTTPStatusError 503)))
       (crawl_objects ''http://a/'', crawl_workers))) = [] \<and>
   url_queue (fst (run (crawl_params ''http://a/'' 1)
       (replicate 21 (Worker 0 (HTTPStatusError 503)))
       (crawl_objects ''http://a/'', crawl_workers))) = \<lparr>items = [], unfinished = 0\<rparr>"
  by code_simp

lemma unclassified_run_eq:
  "unclassified_run =
     (\<lparr>url_queue = \<lparr>items = [], unfinished = 1\<rparr>, run_flag = True,
       visited = {''http://a/''}, message_queue = [], backoff = initial_backoff\<rparr>,
      [\<lparr>pc = WaitRunFlag, url = ''http://a/'', depth = 0, attempts = 1, client = [''http://a/'']\<rparr>,
       \<lparr>pc = WaitRunFlag, url = [], depth = 0, attempts = 0, client = []\<rparr>])"
  by (simp add: unclassified_run_def crawl_params_def crawl_objects_def crawl_workers_def
      step_def crawler_def crawler_take_item_def crawler_attempt_def crawler_on_response_def
      put_def skip_codes_def backoff_codes_def numeral_2_eq_2 crawl_min_wait_def)

lemma drain_empty: "items q = [] \<Longrightarrow> drain q = (q, None)"
  by (simp add: drain.simps)

lemma crawler_idle:
  assumes "items (url_queue sh) = []" and "idle (pc w)"
  shows "fst (crawler p out (sh, w)) = sh \<and> idle (pc (snd (crawler p out (sh, w))))"
  using assms by (cases "pc w") (simp_all add: crawler_def crawler_take_item_def idle_def)

lemma orphaned_step:
  assumes "orphaned s"
  shows "orphaned (step p m s)"
proof (cases s)
  case (Pair sh ws)
  show ?thesis
  proof (cases m)
    case (Worker i out)
    show ?thesis
    proof (cases "i < length ws")
      case True
      with assms Pair have "idle (pc (ws ! i))" and e: "items (url_queue sh) = []"
        by (simp_all add: orphaned_def)
      from crawler_idle [OF e this(1), of p out]
      have "fst (crawler p out (sh, ws ! i)) = sh"
        and "idle (pc (snd (crawler p out (sh, ws ! i))))" by simp_all
      moreover have "\<forall>v \<in> set (ws[i := w']). idle (pc v)" if "idle (pc w')" for w'
        using that assms Pair set_update_subset_insert [of ws i w']
        by (auto simp: orphaned_def)
      ultimately show ?thesis
        using assms Pair Worker True
        by (simp add: orphaned_def step_def split_beta)
    next
      case False
      with assms Pair Worker show ?thesis by (simp add: step_def)
    qed
  next
    case StopPause
    with assms Pair show ?thesis by (simp add: step_def orphaned_def)
  next
    case StopDrain
    with assms Pair show ?thesis by (simp add: step_def orphaned_def drain_empty)
  qed
qed

lemma orphaned_run: "orphaned s \<Longrightarrow> orphaned (run p ms s)"
  by (induction ms arbitrary: s) (simp_all add: orphaned_step)

lemma orphaned_not_joined: "orphaned s \<Longrightarrow> \<not> joined (url_queue (fst s))"
  by (simp add: orphaned_def joined_def)

lemma orphaned_unclassified_run: "orphaned unclassified_run"
  by (simp add: unclassified_run_eq orphaned_def idle_def)

subsection \<open>Abandoned items\<close>

text \<open>
  C6.  The claim: an item whose fetch ends with an unclassified status or a transport
  error is acknowledged before it is dropped.  For status 418 the worker leaves the
  retry loop by the last \<^verbatim>\<open>break\<close>, which calls no \<^verbatim>\<open>task_done\<close>: no
  message is queued, the worker is back at the head of its loop, and the counter of
  unfinished tasks stays at one under every continuation, so
  \<^verbatim>\<open>url_queue.join()\<close> never returns.
\<close>

theorem unclassified_status_never_acknowledged:
  "fst unclassified_run =
     \<lparr>url_queue = \<lparr>items = [], unfinished = 1\<rparr>, run_flag = True,
      visited = {''http://a/''}, message_queue = [], backoff = initial_backoff\<rparr> \<and>
   pc (snd unclassified_run ! 0) = WaitRunFlag \<and>
   (\<forall>p ms. \<not> joined (url_queue (fst (run p ms unclassified_run))))"
  using orphaned_not_joined [OF orphaned_run [OF orphaned_unclassified_run]]
  by (simp add: unclassified_run_eq)

lemma transport_error_run_eq:
  "transport_error_run =
     (\<lparr>url_queue = \<lparr>items = [], unfinished = 1\<rparr>, run_flag = True,
       visited = {''http://a/''}, message_queue = [], backoff = initial_backoff\<rparr>,
      [\<lparr>pc = Failed RequestError, url = ''http://a/'', depth = 0, attempts = 1, client = [''http://a/'']\<rparr>,
       \<lparr>pc = WaitRunFlag, url = [], depth = 0, attempts = 0, client = []\<rparr>])"
  by (simp add: transport_error_run_def crawl_params_def crawl_objects_def crawl_workers_def
      step_def crawler_def crawler_take_item_def crawler_attempt_def crawler_on_response_def
      put_def numeral_2_eq_2 crawl_min_wait_def)

lemma length_step: "length (snd (step p m s)) = length (snd s)"
  by (cases s; cases m) (simp_all add: step_def split_beta)

lemma failed_step:
  assumes "i < length (snd s)" and "pc (snd s ! i) = Failed e"
  shows "pc (snd (step p m s) ! i) = Failed e"
proof (cases s)
  case (Pair sh ws)
  show ?thesis
  proof (cases m)
    case (Worker j out)
    with assms Pair show ?thesis
      by (cases "j = i") (simp_all add: step_def split_beta crawler_def)
  qed (use assms Pair in \<open>simp_all add: step_def\<close>)
qed

lemma failed_run:
  "i < length (snd s) \<Longrightarrow> pc (snd s ! i) = Failed e \<Longrightarrow> pc (snd (run p ms s) ! i) = Failed e"
  by (induction ms arbitrary: s) (simp_all add: failed_step length_step)

text \<open>
  C7.  The claim: no outcome of a fetch ends the worker.  An exception of
  \<^verbatim>\<open>client.get\<close> other than \<^verbatim>\<open>httpx.HTTPStatusError\<close> is caught nowhere:
  it leaves the coroutine, the worker never runs again, and the item it held is never
  acknowledged.
\<close>

theorem transport_error_kills_worker:
  "pc (snd transport_error_run ! 0) = Failed RequestError \<and>
   (\<forall>p ms. pc (snd (run p ms transport_error_run) ! 0) = Failed RequestError) \<and>
   (\<forall>p ms. \<not> joined (url_queue (fst (run p ms transport_error_run))))"
proof -
  have "orphaned transport_error_run"
    by (simp add: transport_error_run_eq orphaned_def idle_def)
  from orphaned_not_joined [OF orphaned_run [OF this]]
  have "\<forall>p ms. \<not> joined (url_queue (fst (run p ms transport_error_run)))" by simp
  moreover have "\<forall>p ms. pc (snd (run p ms transport_error_run) ! 0) = Failed RequestError"
    by (intro allI failed_run) (simp_all add: transport_error_run_eq)
  ultimately show ?thesis by (simp add: transport_error_run_eq)
qed

lemma drain_acknowledges_all:
  "int (length (items q)) \<le> unfinished q \<Longrightarrow>
   drain q = (\<lparr>items = [], unfinished = unfinished q - int (length (items q))\<rparr>, None)"
proof (induction q rule: drain.induct)
  case (1 q)
  show ?case
  proof (cases "items q")
    case Nil
    then show ?thesis by (simp add: drain.simps)
  next
    case (Cons x xs)
    let ?q2 = "\<lparr>items = xs, unfinished = unfinished q - 1\<rparr>"
    from Cons "1.prems" have td: "task_done (q\<lparr>items := tl (items q)\<rparr>) = Inr ?q2"
      by (simp add: task_done_def)
    from Cons "1.prems" have "int (length (items ?q2)) \<le> unfinished ?q2" by simp
    with "1.IH" [OF _ refl td] Cons
    have "drain ?q2 = (\<lparr>items = [], unfinished = unfinished ?q2 - int (length (items ?q2))\<rparr>, None)"
      by simp
    with Cons td show ?thesis
      by (subst drain.simps) simp
  qed
qed

subsection \<open>Stopping a session\<close>

lemma crawl_stores_objects:
  "crawl (set_session ss k u) k =
     Inr (ss(k \<mapsto> \<lparr>entry_url = u, objects = Some (crawl_objects u)\<rparr>))"
  by (simp add: crawl_def set_session_def)

lemma stop_before_crawl:
  "stop_session during (set_session ss k u) k = (set_session ss k u, Inl (KeyError ''url_queue''))"
  by (simp add: stop_session_def set_session_def)

text \<open>
  C8, as stated: for an absent key \<^verbatim>\<open>stop_session\<close> and \<^verbatim>\<open>data_stream\<close>
  fail with a failure of their own kind for the client.  In the code the subscript
  \<^verbatim>\<open>sessions[session_key]\<close> raises \<^verbatim>\<open>KeyError\<close>, and nothing catches it.
\<close>

theorem stop_session_absent_key:
  "stop_session (\<lambda>sh. sh) Map.empty ''k'' = (Map.empty, Inl (KeyError ''k'')) \<and>
   data_stream Map.empty ''k'' = Inl (KeyError ''k'')"
  by (simp add: stop_session_def data_stream_def)

text \<open>
  C8, amended.  For a key absent from the registry \<^verbatim>\<open>stop_session\<close> and
  \<^verbatim>\<open>data_stream\<close> raise \<^verbatim>\<open>KeyError\<close> with that key and change nothing.
  For a key whose crawl has stored its objects, \<^verbatim>\<open>stop_session\<close> clears the run flag
  and, after the sleep, empties the frontier, acknowledges every item it removed and
  returns \<^verbatim>\<open>{"status": "Success"}\<close>; the frontier holds no more items than there
  are unfinished tasks.
\<close>

theorem stop_session_result:
  "(ss k = None \<longrightarrow>
      stop_session during ss k = (ss, Inl (KeyError k)) \<and> data_stream ss k = Inl (KeyError k)) \<and>
   (ss k = Some e \<and> objects e = Some sh \<and> sh1 = during (sh\<lparr>run_flag := False\<rparr>) \<and>
    int (length (items (url_queue sh1))) \<le> unfinished (url_queue sh1) \<longrightarrow>
      stop_session during ss k =
        (ss(k \<mapsto> e\<lparr>objects := Some (sh1\<lparr>url_queue :=
            \<lparr>items = [],
             unfinished = unfinished (url_queue sh1) - int (length (items (url_queue sh1)))\<rparr>\<rparr>)\<rparr>),
         Inr [(''status'', ''Success'')]))"
proof (intro conjI impI)
  assume "ss k = None"
  then show "stop_session during ss k = (ss, Inl (KeyError k))"
    by (simp add: stop_session_def)
next
  assume "ss k = None"
  then show "data_stream ss k = Inl (KeyError k)"
    by (simp add: data_stream_def)
next
  assume a: "ss k = Some e \<and> objects e = Some sh \<and> sh1 = during (sh\<lparr>run_flag := False\<rparr>) \<and>
    int (length (items (url_queue sh1))) \<le> unfinished (url_queue sh1)"
  then have le: "int (length (items (url_queue sh1))) \<le> unfinished (url_queue sh1)"
    and eq: "sh1 = during (sh\<lparr>run_flag := False\<rparr>)"
    and e: "ss k = Some e" "objects e = Some sh"
    by blast+
  from e drain_acknowledges_all [OF le] show "stop_session during ss k =
        (ss(k \<mapsto> e\<lparr>objects := Some (sh1\<lparr>url_queue :=
            \<lparr>items = [],
             unfinished = unfinished (url_queue sh1) - int (length (items (url_queue sh1)))\<rparr>\<rparr>)\<rparr>),
         Inr [(''status'', ''Success'')])"
    unfolding eq by (simp add: stop_session_def Let_def)
qed

theorem stop_session_result_witness:
  "stop_session (\<lambda>sh. sh) registry ''j'' = (registry, Inl (KeyError ''j'')) \<and>
   data_stream registry ''j'' = Inl (KeyError ''j'') \<and>
   stop_session (\<lambda>sh. sh) registry ''k'' =
     ([''k'' \<mapsto> \<lparr>entry_url = ''http://a/'',
        objects = Some \<lparr>url_queue = \<lparr>items = [], unfinished = 1\<rparr>,
          run_flag = False, visited = {''http://a/''},
          message_queue = [\<lparr>msg_visited = ''http://a/'',
             msg_links = [''http://a/x'', ''http://a/y''], msg_depth = 0\<rparr>],
          backoff = initial_backoff\<rparr>\<rparr>],
      Inr [(''status'', ''Success'')])"
proof -
  have absent: "registry ''j'' = None"
    by (simp add: registry_def)
  have present: "registry ''k'' = Some (the (registry ''k''))"
    by (simp add: registry_def)
  note r = stop_session_result [of registry _ "\<lambda>sh. sh"]
  from r [of "''j''"] absent
  have "stop_session (\<lambda>sh. sh) registry ''j'' = (registry, Inl (KeyError ''j''))"
    and "data_stream registry ''j'' = Inl (KeyError ''j'')" by simp_all
  moreover
  from r [of "''k''" "the (registry ''k'')" "the (objects (the (registry ''k'')))"
      "(the (objects (the (registry ''k''))))\<lparr>run_flag := False\<rparr>"]
  have "stop_session (\<lambda>sh. sh) registry ''k'' =
     ([''k'' \<mapsto> \<lparr>entry_url = ''http://a/'',
        objects = Some \<lparr>url_queue = \<lparr>items = [], unfinished = 1\<rparr>,
          run_flag = False, visited = {''http://a/''},
          message_queue = [\<lparr>msg_visited = ''http://a/'',
             msg_links = [''http://a/x'', ''http://a/y''], msg_depth = 0\<rparr>],
          backoff = initial_backoff\<rparr>\<rparr>],
      Inr [(''status'', ''Success'')])"
    by (simp add: registry_def)
  ultimately show ?thesis by simp
qed








subsection \<open>Each URL is fetched once\<close>

lemma acknowledge_fields [simp]:
  "visited (fst (acknowledge sh w)) = visited sh"
  "client (snd (acknowledge sh w)) = client w"
  "url (snd (acknowledge sh w)) = url w"
  "parked (pc (snd (acknowledge sh w)))"
  by (simp_all add: acknowledge_def task_done_def parked_def)

lemma parked_simps [simp]:
  "\<not> parked Sleeping" "\<not> parked Fetching" "\<not> parked BackingOff" "\<not> parked WaitItem"
  "parked WaitRunFlag" "parked (Failed e)"
  by (simp_all add: parked_def)

lemma parked_neq:
  "parked c \<Longrightarrow> c \<noteq> Sleeping \<and> c \<noteq> Fetching \<and> c \<noteq> BackingOff"
  by (auto simp: parked_def)

text \<open>What a block does to the visited set, the URL, the client and the pc.\<close>

lemma crawler_attempt_effect:
  "visited (fst (crawler_attempt p (sh, w))) = visited sh \<and>
   url (snd (crawler_attempt p (sh, w))) = url w \<and>
   (pc (snd (crawler_attempt p (sh, w))) = Fetching \<and>
      client (snd (crawler_attempt p (sh, w))) = client w @ [url w] \<or>
    parked (pc (snd (crawler_attempt p (sh, w)))) \<and>
      client (snd (crawler_attempt p (sh, w))) = client w)"
  by (simp add: crawler_attempt_def)

lemma crawler_on_response_effect:
  "visited (fst (crawler_on_response p out (sh, w))) = visited sh \<and>
   url (snd (crawler_on_response p out (sh, w))) = url w \<and>
   client (snd (crawler_on_response p out (sh, w))) = client w \<and>
   (pc (snd (crawler_on_response p out (sh, w))) = BackingOff \<or>
    parked (pc (snd (crawler_on_response p out (sh, w)))))"
  by (cases out) (simp_all add: crawler_on_response_def Let_def)

lemma crawler_take_item_effect:
  "client (snd (crawler_take_item p (sh, w))) = client w \<and>
   ((pc (snd (crawler_take_item p (sh, w))) = pc w \<or>
     parked (pc (snd (crawler_take_item p (sh, w))))) \<and>
      visited (fst (crawler_take_item p (sh, w))) = visited sh \<or>
    pc (snd (crawler_take_item p (sh, w))) = Sleeping \<and>
      url (snd (crawler_take_item p (sh, w))) \<notin> visited sh \<and>
      visited (fst (crawler_take_item p (sh, w))) =
        insert (url (snd (crawler_take_item p (sh, w)))) (visited sh))"
  by (cases "items (url_queue sh)") (simp_all add: crawler_take_item_def Let_def)

lemma effect_attempt:
  assumes "pc w = Sleeping \<or> pc w = BackingOff" and "url v = url w" and "client v = client w"
  shows "effect sh w (fst (crawler_attempt p (sh, v))) (snd (crawler_attempt p (sh, v)))"
proof -
  from crawler_attempt_effect [of p sh v]
  consider "pc (snd (crawler_attempt p (sh, v))) = Fetching"
      "client (snd (crawler_attempt p (sh, v))) = client v @ [url v]"
    | "parked (pc (snd (crawler_attempt p (sh, v))))"
      "client (snd (crawler_attempt p (sh, v))) = client v"
    by blast
  then show ?thesis
  proof cases
    case 1
    with assms crawler_attempt_effect [of p sh v] show ?thesis by (simp add: effect_def)
  next
    case 2
    from parked_neq [OF 2(1)] 2(2) assms crawler_attempt_effect [of p sh v]
    show ?thesis by (simp add: effect_def)
  qed
qed

lemma effect_on_response:
  assumes "pc w = Fetching"
  shows "effect sh w (fst (crawler_on_response p out (sh, w))) (snd (crawler_on_response p out (sh, w)))"
proof -
  from crawler_on_response_effect [of p out sh w]
  consider "pc (snd (crawler_on_response p out (sh, w))) = BackingOff"
    | "parked (pc (snd (crawler_on_response p out (sh, w))))"
    by blast
  then show ?thesis
  proof cases
    case 1
    with assms crawler_on_response_effect [of p out sh w] show ?thesis by (simp add: effect_def)
  next
    case 2
    from parked_neq [OF 2] assms crawler_on_response_effect [of p out sh w]
    show ?thesis by (simp add: effect_def)
  qed
qed

lemma effect_take_item:
  assumes "pc w = WaitItem"
  shows "effect sh w (fst (crawler_take_item p (sh, w))) (snd (crawler_take_item p (sh, w)))"
proof -
  from crawler_take_item_effect [of p sh w]
  consider "pc (snd (crawler_take_item p (sh, w))) = pc w"
      "visited (fst (crawler_take_item p (sh, w))) = visited sh"
    | "parked (pc (snd (crawler_take_item p (sh, w))))"
      "visited (fst (crawler_take_item p (sh, w))) = visited sh"
    | "pc (snd (crawler_take_item p (sh, w))) = Sleeping"
      "url (snd (crawler_take_item p (sh, w))) \<notin> visited sh"
      "visited (fst (crawler_take_item p (sh, w))) =
        insert (url (snd (crawler_take_item p (sh, w)))) (visited sh)"
    by blast
  then show ?thesis
  proof cases
    case 1
    with assms crawler_take_item_effect [of p sh w] show ?thesis by (simp add: effect_def)
  next
    case 2
    from parked_neq [OF 2(1)] 2(2) crawler_take_item_effect [of p sh w]
    show ?thesis by (simp add: effect_def)
  next
    case 3
    from 3 assms crawler_take_item_effect [of p sh w] show ?thesis
      unfolding effect_def by blast
  qed
qed

lemma effect_crawler:
  "effect sh w (fst (crawler p out (sh, w))) (snd (crawler p out (sh, w)))"
proof (cases "pc w")
  case WaitRunFlag
  then show ?thesis by (simp add: crawler_def effect_def)
next
  case WaitItem
  with effect_take_item [of w sh p] show ?thesis by (simp add: crawler_def)
next
  case Sleeping
  with effect_attempt [of w "w\<lparr>attempts := 0\<rparr>" sh p] show ?thesis by (simp add: crawler_def)
next
  case Fetching
  with effect_on_response [of w sh p out] show ?thesis by (simp add: crawler_def)
next
  case BackingOff
  with effect_attempt [of w w sh p] show ?thesis by (simp add: crawler_def)
next
  case (Failed e)
  then show ?thesis by (simp add: crawler_def effect_def)
qed

lemma fetch_inv_worker:
  assumes inv: "fetch_inv (sh, ws) F" and i: "i < length ws"
    and eff: "effect sh (ws ! i) sh' w'"
    and xs: "xs = (if pc (ws ! i) = Sleeping \<and> pc w' = Fetching then [url (ws ! i)] else [])"
  shows "set xs \<inter> F = {} \<and> fetch_inv (sh', ws[i := w']) (F \<union> set xs)"
proof -
  from inv have sub: "F \<subseteq> visited sh"
    and sl: "\<And>j. j < length ws \<Longrightarrow> pc (ws ! j) = Sleeping \<Longrightarrow>
        url (ws ! j) \<in> visited sh \<and> url (ws ! j) \<notin> F"
    and fe: "\<And>j. j < length ws \<Longrightarrow> pc (ws ! j) = Fetching \<or> pc (ws ! j) = BackingOff \<Longrightarrow>
        url (ws ! j) \<in> F"
    and cl: "\<And>j. j < length ws \<Longrightarrow> set (client (ws ! j)) \<subseteq> F"
    and di: "\<And>j k. j < length ws \<Longrightarrow> k < length ws \<Longrightarrow> j \<noteq> k \<Longrightarrow>
        pc (ws ! j) = Sleeping \<Longrightarrow> pc (ws ! k) = Sleeping \<Longrightarrow> url (ws ! j) \<noteq> url (ws ! k)"
    unfolding fetch_inv_def fst_conv snd_conv by blast+
  from eff consider
      (claim) "pc w' = Sleeping" "pc (ws ! i) = WaitItem" "url w' \<notin> visited sh"
        "visited sh' = insert (url w') (visited sh)" "client w' = client (ws ! i)"
    | (first) "pc w' = Fetching" "pc (ws ! i) = Sleeping" "url w' = url (ws ! i)"
        "client w' = client (ws ! i) @ [url (ws ! i)]" "visited sh' = visited sh"
    | (rest) "pc w' \<noteq> Sleeping" "pc w' = Fetching \<longrightarrow> pc (ws ! i) = BackingOff"
        "pc w' = Fetching \<or> pc w' = BackingOff \<longrightarrow>
           url w' = url (ws ! i) \<and> (pc (ws ! i) = Fetching \<or> pc (ws ! i) = BackingOff)"
        "set (client w') \<subseteq> set (client (ws ! i)) \<union>
           (if pc (ws ! i) = BackingOff then {url (ws ! i)} else {})"
        "visited sh' = visited sh"
    unfolding effect_def by auto
  then show ?thesis
  proof cases
    case claim
    then have [simp]: "xs = []" using xs by simp
    have "fetch_inv (sh', ws[i := w']) F"
      unfolding fetch_inv_def
    proof (intro conjI allI impI)
      show "F \<subseteq> visited (fst (sh', ws[i := w']))" using sub claim by auto
    next
      fix j assume j: "j < length (snd (sh', ws[i := w']))"
        and "pc (snd (sh', ws[i := w']) ! j) = Sleeping"
      then show "url (snd (sh', ws[i := w']) ! j) \<in> visited (fst (sh', ws[i := w']))"
        using claim sl [of j] i by (cases "j = i") auto
    next
      fix j assume j: "j < length (snd (sh', ws[i := w']))"
        and "pc (snd (sh', ws[i := w']) ! j) = Sleeping"
      then show "url (snd (sh', ws[i := w']) ! j) \<notin> F"
        using claim sl [of j] sub i by (cases "j = i") auto
    next
      fix j assume j: "j < length (snd (sh', ws[i := w']))"
        and "pc (snd (sh', ws[i := w']) ! j) = Fetching \<or> pc (snd (sh', ws[i := w']) ! j) = BackingOff"
      then show "url (snd (sh', ws[i := w']) ! j) \<in> F"
        using claim fe [of j] i by (cases "j = i") auto
    next
      fix j assume j: "j < length (snd (sh', ws[i := w']))"
      then show "set (client (snd (sh', ws[i := w']) ! j)) \<subseteq> F"
        using claim cl [of j] cl [of i] i by (cases "j = i") auto
    next
      fix j k assume "j < length (snd (sh', ws[i := w']))" "k < length (snd (sh', ws[i := w']))"
        and "j \<noteq> k \<and> pc (snd (sh', ws[i := w']) ! j) = Sleeping \<and>
          pc (snd (sh', ws[i := w']) ! k) = Sleeping"
      then show "url (snd (sh', ws[i := w']) ! j) \<noteq> url (snd (sh', ws[i := w']) ! k)"
        using claim sl [of j] sl [of k] di [of j k] i
        by (cases "j = i"; cases "k = i") auto
    qed
    then show ?thesis by simp
  next
    case first
    then have x: "xs = [url (ws ! i)]" using xs by simp
    have new: "url (ws ! i) \<notin> F" "url (ws ! i) \<in> visited sh"
      using sl [OF i first(2)] by simp_all
    have "fetch_inv (sh', ws[i := w']) (insert (url (ws ! i)) F)"
      unfolding fetch_inv_def
    proof (intro conjI allI impI)
      show "insert (url (ws ! i)) F \<subseteq> visited (fst (sh', ws[i := w']))"
        using sub first new by auto
    next
      fix j assume j: "j < length (snd (sh', ws[i := w']))"
        and "pc (snd (sh', ws[i := w']) ! j) = Sleeping"
      then show "url (snd (sh', ws[i := w']) ! j) \<in> visited (fst (sh', ws[i := w']))"
        using first sl [of j] i by (cases "j = i") auto
    next
      fix j assume j: "j < length (snd (sh', ws[i := w']))"
        and "pc (snd (sh', ws[i := w']) ! j) = Sleeping"
      then show "url (snd (sh', ws[i := w']) ! j) \<notin> insert (url (ws ! i)) F"
        using first sl [of j] di [of j i] i by (cases "j = i") auto
    next
      fix j assume j: "j < length (snd (sh', ws[i := w']))"
        and "pc (snd (sh', ws[i := w']) ! j) = Fetching \<or> pc (snd (sh', ws[i := w']) ! j) = BackingOff"
      then show "url (snd (sh', ws[i := w']) ! j) \<in> insert (url (ws ! i)) F"
        using first fe [of j] i by (cases "j = i") auto
    next
      fix j assume j: "j < length (snd (sh', ws[i := w']))"
      then show "set (client (snd (sh', ws[i := w']) ! j)) \<subseteq> insert (url (ws ! i)) F"
        using first cl [of j] cl [of i] i by (cases "j = i") auto
    next
      fix j k assume "j < length (snd (sh', ws[i := w']))" "k < length (snd (sh', ws[i := w']))"
        and "j \<noteq> k \<and> pc (snd (sh', ws[i := w']) ! j) = Sleeping \<and>
          pc (snd (sh', ws[i := w']) ! k) = Sleeping"
      then show "url (snd (sh', ws[i := w']) ! j) \<noteq> url (snd (sh', ws[i := w']) ! k)"
        using first di [of j k] i
        by (cases "j = i"; cases "k = i") auto
    qed
    with x new show ?thesis by simp
  next
    case rest
    then have [simp]: "xs = []" using xs by auto
    have old: "pc (ws ! i) = Fetching \<or> pc (ws ! i) = BackingOff \<Longrightarrow> url (ws ! i) \<in> F"
      using fe [OF i] by simp
    have "fetch_inv (sh', ws[i := w']) F"
      unfolding fetch_inv_def
    proof (intro conjI allI impI)
      show "F \<subseteq> visited (fst (sh', ws[i := w']))" using sub rest by auto
    next
      fix j assume j: "j < length (snd (sh', ws[i := w']))"
        and "pc (snd (sh', ws[i := w']) ! j) = Sleeping"
      then show "url (snd (sh', ws[i := w']) ! j) \<in> visited (fst (sh', ws[i := w']))"
        using rest sl [of j] i by (cases "j = i") auto
    next
      fix j assume j: "j < length (snd (sh', ws[i := w']))"
        and "pc (snd (sh', ws[i := w']) ! j) = Sleeping"
      then show "url (snd (sh', ws[i := w']) ! j) \<notin> F"
        using rest sl [of j] i by (cases "j = i") auto
    next
      fix j assume j: "j < length (snd (sh', ws[i := w']))"
        and "pc (snd (sh', ws[i := w']) ! j) = Fetching \<or> pc (snd (sh', ws[i := w']) ! j) = BackingOff"
      then show "url (snd (sh', ws[i := w']) ! j) \<in> F"
        using rest old fe [of j] i by (cases "j = i") auto
    next
      fix j assume j: "j < length (snd (sh', ws[i := w']))"
      then show "set (client (snd (sh', ws[i := w']) ! j)) \<subseteq> F"
        using rest old cl [of j] cl [of i] i by (cases "j = i") (auto split: if_splits)
    next
      fix j k assume "j < length (snd (sh', ws[i := w']))" "k < length (snd (sh', ws[i := w']))"
        and "j \<noteq> k \<and> pc (snd (sh', ws[i := w']) ! j) = Sleeping \<and>
          pc (snd (sh', ws[i := w']) ! k) = Sleeping"
      then show "url (snd (sh', ws[i := w']) ! j) \<noteq> url (snd (sh', ws[i := w']) ! k)"
        using rest di [of j k] i
        by (cases "j = i"; cases "k = i") auto
    qed
    then show ?thesis by simp
  qed
qed

lemma fetch_inv_step:
  assumes "fetch_inv s F"
  shows "set (started p m s) \<inter> F = {} \<and> fetch_inv (step p m s) (F \<union> set (started p m s))"
proof (cases s)
  case (Pair sh ws)
  show ?thesis
  proof (cases m)
    case (Worker i out)
    show ?thesis
    proof (cases "i < length ws")
      case True
      let ?r = "crawler p out (sh, ws ! i)"
      have st: "step p m (sh, ws) = (fst ?r, ws[i := snd ?r])"
        using Worker True by (simp add: step_def split_beta)
      have xs: "started p m (sh, ws) =
          (if pc (ws ! i) = Sleeping \<and> pc (snd ?r) = Fetching then [url (ws ! i)] else [])"
        unfolding started_def st using Worker True by simp
      from assms Pair have inv: "fetch_inv (sh, ws) F" by simp
      from fetch_inv_worker [OF inv True effect_crawler xs]
      show ?thesis unfolding Pair st .
    next
      case False
      with assms Pair Worker show ?thesis by (simp add: step_def started_def)
    qed
  next
    case StopPause
    with assms Pair show ?thesis by (simp add: step_def started_def fetch_inv_def)
  next
    case StopDrain
    with assms Pair show ?thesis by (simp add: step_def started_def fetch_inv_def)
  qed
qed

lemma distinct_started: "distinct (started p m s)"
  by (cases m) (simp_all add: started_def)

lemma fetch_inv_run:
  "fetch_inv s F \<Longrightarrow>
   distinct (fetches p ms s) \<and> set (fetches p ms s) \<inter> F = {} \<and>
   fetch_inv (run p ms s) (F \<union> set (fetches p ms s))"
proof (induction ms arbitrary: s F)
  case Nil
  then show ?case by simp
next
  case (Cons m ms)
  from fetch_inv_step [OF Cons.prems, of p m]
  have d: "set (started p m s) \<inter> F = {}"
    and i: "fetch_inv (step p m s) (F \<union> set (started p m s))" by simp_all
  from Cons.IH [OF i]
  have "distinct (fetches p ms (step p m s))"
    and "set (fetches p ms (step p m s)) \<inter> (F \<union> set (started p m s)) = {}"
    and "fetch_inv (run p ms (step p m s))
           (F \<union> set (started p m s) \<union> set (fetches p ms (step p m s)))"
    by simp_all
  with d distinct_started [of p m s] show ?case
    by (auto simp: Un_assoc)
qed

lemma fetch_inv_initial: "fetch_inv (crawl_objects base, crawl_workers) {}"
  by (simp add: fetch_inv_def crawl_workers_def)

lemma visited_step: "visited (fst s) \<subseteq> visited (fst (step p m s))"
proof (cases s)
  case (Pair sh ws)
  show ?thesis
  proof (cases m)
    case (Worker i out)
    with Pair effect_crawler [of sh "ws ! i" p out] show ?thesis
      by (auto simp: step_def split_beta effect_def)
  qed (use Pair in \<open>simp_all add: step_def\<close>)
qed

lemma visited_run: "visited (fst s) \<subseteq> visited (fst (run p ms s))"
proof (induction ms arbitrary: s)
  case (Cons m ms)
  from visited_step [of s p m] Cons [of "step p m s"] show ?case by auto
qed simp

lemma run_append: "run p (ms @ ms') s = run p ms' (run p ms s)"
  by (induction ms arbitrary: s) simp_all

text \<open>
  C1.  In every run of a session, under any schedule of its workers and of
  \<^verbatim>\<open>stop_session\<close> and with any responses: no URL has its retry loop started twice
  (the fetch history has no repetition), every URL fetched is in the visited set, every
  request a client has sent is for a URL of the history, and the visited set only grows.
  The check-then-add lies in one block: a worker that takes an item within the depth
  limit whose URL is in the visited set acknowledges it and returns to the head of its
  loop, its client unused; otherwise the URL is inserted and the worker goes on to the
  politeness sleep and the fetch.  The visited set is a set, so it holds no URL twice.
\<close>

theorem no_url_fetched_twice:
  "distinct (fetches p ms (crawl_objects base, crawl_workers)) \<and>
   set (fetches p ms (crawl_objects base, crawl_workers)) \<subseteq>
     visited (fst (run p ms (crawl_objects base, crawl_workers))) \<and>
   (\<forall>w \<in> set (snd (run p ms (crawl_objects base, crawl_workers))).
      set (client w) \<subseteq> set (fetches p ms (crawl_objects base, crawl_workers))) \<and>
   visited (fst (run p ms s)) \<subseteq> visited (fst (run p (ms @ ms') s)) \<and>
   (pc w = WaitItem \<and> items (url_queue sh) = next_url # rest \<and>
    item_depth next_url \<le> max_depth p \<and> 0 < unfinished (url_queue sh) \<longrightarrow>
      crawler p out (sh, w) =
        (if item_url next_url \<in> visited sh
         then (sh\<lparr>url_queue := \<lparr>items = rest, unfinished = unfinished (url_queue sh) - 1\<rparr>\<rparr>,
               w\<lparr>depth := item_depth next_url, url := item_url next_url, pc := WaitRunFlag\<rparr>)
         else (sh\<lparr>url_queue := \<lparr>items = rest, unfinished = unfinished (url_queue sh)\<rparr>,
                  visited := insert (item_url next_url) (visited sh)\<rparr>,
               w\<lparr>depth := item_depth next_url, url := item_url next_url, pc := Sleeping\<rparr>)))"
proof -
  let ?s0 = "(crawl_objects base, crawl_workers)"
  from fetch_inv_run [OF fetch_inv_initial, of p ms base]
  have d: "distinct (fetches p ms ?s0)"
    and inv: "fetch_inv (run p ms ?s0) (set (fetches p ms ?s0))" by simp_all
  from inv have sub: "set (fetches p ms ?s0) \<subseteq> visited (fst (run p ms ?s0))"
    by (simp add: fetch_inv_def)
  have cl: "\<forall>w \<in> set (snd (run p ms ?s0)). set (client w) \<subseteq> set (fetches p ms ?s0)"
  proof
    fix w assume "w \<in> set (snd (run p ms ?s0))"
    then obtain i where "i < length (snd (run p ms ?s0))" "w = snd (run p ms ?s0) ! i"
      by (auto simp: in_set_conv_nth)
    with inv show "set (client w) \<subseteq> set (fetches p ms ?s0)"
      unfolding fetch_inv_def by blast
  qed
  have mono: "visited (fst (run p ms s)) \<subseteq> visited (fst (run p (ms @ ms') s))"
    by (simp add: run_append visited_run)
  have blk: "pc w = WaitItem \<and> items (url_queue sh) = next_url # rest \<and>
    item_depth next_url \<le> max_depth p \<and> 0 < unfinished (url_queue sh) \<longrightarrow>
      crawler p out (sh, w) =
        (if item_url next_url \<in> visited sh
         then (sh\<lparr>url_queue := \<lparr>items = rest, unfinished = unfinished (url_queue sh) - 1\<rparr>\<rparr>,
               w\<lparr>depth := item_depth next_url, url := item_url next_url, pc := WaitRunFlag\<rparr>)
         else (sh\<lparr>url_queue := \<lparr>items = rest, unfinished = unfinished (url_queue sh)\<rparr>,
                  visited := insert (item_url next_url) (visited sh)\<rparr>,
               w\<lparr>depth := item_depth next_url, url := item_url next_url, pc := Sleeping\<rparr>))"
    by (simp add: crawler_def crawler_take_item_def acknowledge_ok)
  from d sub cl mono blk show ?thesis by blast
qed

theorem no_url_fetched_twice_witness:
  "fetches (crawl_params ''http://a/'' 2) race_schedule (crawl_objects ''http://a/'', crawl_workers) =
     [''http://a/'', ''http://a/x'', ''http://a/y'', ''http://a/z''] \<and>
   distinct (fetches (crawl_params ''http://a/'' 2) race_schedule
     (crawl_objects ''http://a/'', crawl_workers)) \<and>
   visited (fst (run (crawl_params ''http://a/'' 2) race_schedule
     (crawl_objects ''http://a/'', crawl_workers))) =
     {''http://a/'', ''http://a/x'', ''http://a/y'', ''http://a/z''} \<and>
   map client (snd (run (crawl_params ''http://a/'' 2) race_schedule
     (crawl_objects ''http://a/'', crawl_workers))) =
     [''http://a/'', ''http://a/x'', ''http://a/z'', ''http://a/z''] # [''http://a/y''] # [] \<and>
   visited (fst (run (crawl_params ''http://a/'' 2) (take 4 race_schedule)
     (crawl_objects ''http://a/'', crawl_workers))) \<subseteq>
   visited (fst (run (crawl_params ''http://a/'' 2) (take 4 race_schedule @ drop 4 race_schedule)
     (crawl_objects ''http://a/'', crawl_workers))) \<and>
   crawler (crawl_params ''http://a/'' 2) (Success [] [] [])
     (\<lparr>url_queue = \<lparr>items = [\<lparr>item_url = ''http://a/z'', item_depth = 2\<rparr>], unfinished = 2\<rparr>,
       run_flag = True, visited = {''http://a/z'', ''http://a/y'', ''http://a/x'', ''http://a/''},
       message_queue = [], backoff = initial_backoff\<rparr>,
      \<lparr>pc = WaitItem, url = ''http://a/y'', depth = 1, attempts = 1, client = [''http://a/y'']\<rparr>) =
     (\<lparr>url_queue = \<lparr>items = [], unfinished = 1\<rparr>,
       run_flag = True, visited = {''http://a/z'', ''http://a/y'', ''http://a/x'', ''http://a/''},
       message_queue = [], backoff = initial_backoff\<rparr>,
      \<lparr>pc = WaitRunFlag, url = ''http://a/z'', depth = 2, attempts = 1, client = [''http://a/y'']\<rparr>)"
proof -
  let ?p = "crawl_params ''http://a/'' 2"
  let ?s0 = "(crawl_objects ''http://a/'', crawl_workers)"
  let ?sh = "\<lparr>url_queue = \<lparr>items = [\<lparr>item_url = ''http://a/z'', item_depth = 2\<rparr>], unfinished = 2\<rparr>,
       run_flag = True, visited = {''http://a/z'', ''http://a/y'', ''http://a/x'', ''http://a/''},
       message_queue = [], backoff = initial_backoff\<rparr>"
  let ?w = "\<lparr>pc = WaitItem, url = ''http://a/y'', depth = 1, attempts = 1, client = [''http://a/y'']\<rparr>"
  note t = no_url_fetched_twice [where p = ?p and ms = race_schedule and base = "''http://a/''"
      and s = ?s0 and w = ?w and sh = ?sh
      and next_url = "\<lparr>item_url = ''http://a/z'', item_depth = 2\<rparr>" and rest = "[]"
      and out = "Success [] [] []"]
  have f: "fetches ?p race_schedule ?s0 =
      [''http://a/'', ''http://a/x'', ''http://a/y'', ''http://a/z'']"
    by code_simp
  have v: "visited (fst (run ?p race_schedule ?s0)) =
      {''http://a/'', ''http://a/x'', ''http://a/y'', ''http://a/z''}"
    by code_simp
  have c: "map client (snd (run ?p race_schedule ?s0)) =
      [''http://a/'', ''http://a/x'', ''http://a/z'', ''http://a/z''] # [''http://a/y''] # []"
    by code_simp
  from t have d: "distinct (fetches ?p race_schedule ?s0)" by blast
  from no_url_fetched_twice [where p = ?p and ms = "take 4 race_schedule" and s = ?s0
      and ms' = "drop 4 race_schedule"]
  have m: "visited (fst (run ?p (take 4 race_schedule) ?s0)) \<subseteq>
      visited (fst (run ?p (take 4 race_schedule @ drop 4 race_schedule) ?s0))"
    by blast
  from t have "crawler ?p (Success [] [] []) (?sh, ?w) =
     (\<lparr>url_queue = \<lparr>items = [], unfinished = 1\<rparr>,
       run_flag = True, visited = {''http://a/z'', ''http://a/y'', ''http://a/x'', ''http://a/''},
       message_queue = [], backoff = initial_backoff\<rparr>,
      \<lparr>pc = WaitRunFlag, url = ''http://a/z'', depth = 2, attempts = 1, client = [''http://a/y'']\<rparr>)"
    by (simp add: crawl_params_def)
  with f v c d m show ?thesis by blast
qed

subsection \<open>The counter of unfinished tasks\<close>

lemma held_update:
  "i < length ws \<Longrightarrow>
   held (ws[i := w']) =
     held ws - (if holding (pc (ws ! i)) then 1 else 0) + (if holding (pc w') then 1 else 0)"
proof (induction ws arbitrary: i)
  case Nil
  then show ?case by simp
next
  case (Cons w ws)
  then show ?case by (cases i) (simp_all add: held_def)
qed

lemma held_nonneg: "0 \<le> held ws"
  unfolding held_def by (induction ws) simp_all

lemma unfinished_foldl_put: "unfinished (foldl put q xs) = unfinished q + int (length xs)"
  by (induction xs arbitrary: q) (simp_all add: put_def)

lemma debt_acknowledge:
  "debt (fst (acknowledge sh w)) (snd (acknowledge sh w)) \<le>
     int (length (items (url_queue sh))) + 1 - unfinished (url_queue sh)"
  by (simp add: acknowledge_def task_done_def debt_def holding_def)

lemma acknowledge_no_ValueError:
  "0 < unfinished (url_queue sh) \<Longrightarrow> pc (snd (acknowledge sh w)) = WaitRunFlag"
  by (simp add: acknowledge_def task_done_def)

lemma debt_take_item:
  assumes "pc w = WaitItem"
  shows "debt (fst (crawler_take_item p (sh, w))) (snd (crawler_take_item p (sh, w))) \<le> debt sh w"
proof (cases "items (url_queue sh)")
  case Nil
  then show ?thesis by (simp add: crawler_take_item_def)
next
  case (Cons x xs)
  let ?sh1 = "sh\<lparr>url_queue := (url_queue sh)\<lparr>items := xs\<rparr>\<rparr>"
  have a: "debt (fst (acknowledge ?sh1 v)) (snd (acknowledge ?sh1 v)) \<le> debt sh w" for v
    using debt_acknowledge [of ?sh1 v] Cons assms by (simp add: debt_def holding_def)
  from Cons assms a show ?thesis
    by (simp add: crawler_take_item_def Let_def) (simp add: debt_def holding_def)
qed

lemma debt_attempt:
  assumes "holding (pc w)"
  shows "debt (fst (crawler_attempt p (sh, w))) (snd (crawler_attempt p (sh, w))) \<le> debt sh w"
  using assms debt_acknowledge [of sh w]
  by (simp add: crawler_attempt_def) (simp add: debt_def holding_def)

lemma debt_on_response:
  assumes "holding (pc w)"
  shows "debt (fst (crawler_on_response p out (sh, w))) (snd (crawler_on_response p out (sh, w)))
    \<le> debt sh w"
proof (cases out)
  case (Success hrefs order order')
  let ?links = "iterate order (filter (\<lambda>h. startswith h (base_url p)) hrefs)"
  let ?new = "map (\<lambda>link. \<lparr>item_url = link, item_depth = depth w + 1\<rparr>)
      (iterate order' (filter (\<lambda>l. l \<notin> visited sh) ?links))"
  let ?sh3 = "sh\<lparr>backoff := fst (backoff_calculator (backoff sh) False (min_wait p)),
      message_queue := message_queue sh @
        [\<lparr>msg_visited = url w, msg_links = ?links, msg_depth = depth w\<rparr>],
      url_queue := foldl put (url_queue sh) ?new\<rparr>"
  have r: "crawler_on_response p out (sh, w) = acknowledge ?sh3 w"
    using Success by (simp add: crawler_on_response_def Let_def)
  from debt_acknowledge [of ?sh3 w] assms show ?thesis
    unfolding r by (simp add: debt_def items_foldl_put unfinished_foldl_put)
next
  case (HTTPStatusError code)
  let ?sh1 = "sh\<lparr>message_queue := message_queue sh @
      [\<lparr>msg_visited = url w, msg_links = [], msg_depth = depth w\<rparr>]\<rparr>"
  from debt_acknowledge [of ?sh1 w] assms HTTPStatusError show ?thesis
    by (simp add: crawler_on_response_def) (simp add: debt_def holding_def)
next
  case OtherException
  with assms show ?thesis by (simp add: crawler_on_response_def debt_def holding_def)
qed

lemma debt_crawler:
  "debt (fst (crawler p out (sh, w))) (snd (crawler p out (sh, w))) \<le> debt sh w"
proof (cases "pc w")
  case WaitRunFlag
  then show ?thesis by (simp add: crawler_def debt_def holding_def)
next
  case WaitItem
  with debt_take_item [of w p sh] show ?thesis by (simp add: crawler_def)
next
  case Sleeping
  with debt_attempt [of "w\<lparr>attempts := 0\<rparr>" p sh] show ?thesis
    by (simp add: crawler_def holding_def debt_def)
next
  case Fetching
  with debt_on_response [of w p out sh] show ?thesis by (simp add: crawler_def holding_def)
next
  case BackingOff
  with debt_attempt [of w p sh] show ?thesis by (simp add: crawler_def holding_def)
next
  case (Failed e)
  then show ?thesis by (simp add: crawler_def)
qed

lemma crawler_no_ValueError:
  assumes "debt sh w \<le> 0" and "pc w \<noteq> Failed ValueError"
  shows "pc (snd (crawler p out (sh, w))) \<noteq> Failed ValueError"
proof (cases "pc w")
  case WaitRunFlag
  then show ?thesis by (simp add: crawler_def)
next
  case WaitItem
  show ?thesis
  proof (cases "items (url_queue sh)")
    case Nil
    with WaitItem show ?thesis by (simp add: crawler_def crawler_take_item_def)
  next
    case (Cons x xs)
    with assms(1) have "0 < unfinished (url_queue sh)" by (simp add: debt_def split: if_splits)
    with WaitItem Cons show ?thesis
      by (simp add: crawler_def crawler_take_item_def Let_def acknowledge_no_ValueError)
  qed
next
  case Sleeping
  with assms(1) have "0 < unfinished (url_queue sh)" by (simp add: debt_def holding_def)
  with Sleeping show ?thesis
    by (simp add: crawler_def crawler_attempt_def acknowledge_no_ValueError)
next
  case Fetching
  with assms(1) have u: "0 < unfinished (url_queue sh)" by (simp add: debt_def holding_def)
  show ?thesis
  proof (cases out)
    case (Success hrefs order order')
    with Fetching u show ?thesis
      by (simp add: crawler_def crawler_on_response_def Let_def acknowledge_no_ValueError
          unfinished_foldl_put)
  next
    case (HTTPStatusError code)
    with Fetching u show ?thesis
      by (simp add: crawler_def crawler_on_response_def acknowledge_no_ValueError)
  next
    case OtherException
    with Fetching show ?thesis by (simp add: crawler_def crawler_on_response_def)
  qed
next
  case BackingOff
  with assms(1) have "0 < unfinished (url_queue sh)" by (simp add: debt_def holding_def)
  with BackingOff show ?thesis
    by (simp add: crawler_def crawler_attempt_def acknowledge_no_ValueError)
next
  case (Failed e)
  with assms(2) show ?thesis by (simp add: crawler_def)
qed

lemma held_member:
  assumes "i < length ws"
  shows "(if holding (pc (ws ! i)) then 1 else 0) \<le> held ws"
proof -
  from held_update [OF assms, of "(ws ! i)\<lparr>pc := WaitRunFlag\<rparr>"]
    held_nonneg [of "ws[i := (ws ! i)\<lparr>pc := WaitRunFlag\<rparr>]"]
  show ?thesis by (simp add: holding_def split: if_splits)
qed

lemma queue_inv_step:
  assumes "queue_inv s"
  shows "queue_inv (step p m s)"
proof (cases s)
  case (Pair sh ws)
  with assms have le: "int (length (items (url_queue sh))) + held ws \<le> unfinished (url_queue sh)"
    and nv: "\<And>w. w \<in> set ws \<Longrightarrow> pc w \<noteq> Failed ValueError"
    by (auto simp: queue_inv_def)
  show ?thesis
  proof (cases m)
    case (Worker i out)
    show ?thesis
    proof (cases "i < length ws")
      case True
      let ?r = "crawler p out (sh, ws ! i)"
      have st: "step p m (sh, ws) = (fst ?r, ws[i := snd ?r])"
        using Worker True by (simp add: step_def split_beta)
      from held_member [OF True] le have d: "debt sh (ws ! i) \<le> 0"
        by (simp add: debt_def)
      from True nv have "pc (ws ! i) \<noteq> Failed ValueError" by simp
      from crawler_no_ValueError [OF d this, of p out]
      have n: "pc (snd ?r) \<noteq> Failed ValueError" .
      have "int (length (items (url_queue (fst ?r)))) + held (ws[i := snd ?r])
          \<le> unfinished (url_queue (fst ?r))"
        using debt_crawler [of p out sh "ws ! i"] le held_update [OF True, of "snd ?r"]
        by (simp add: debt_def split: if_splits)
      moreover have "pc w \<noteq> Failed ValueError" if "w \<in> set (ws[i := snd ?r])" for w
        using that n nv set_update_subset_insert [of ws i "snd ?r"] by auto
      ultimately show ?thesis
        unfolding Pair st by (auto simp: queue_inv_def)
    next
      case False
      with assms Pair Worker show ?thesis by (simp add: step_def)
    qed
  next
    case StopPause
    with assms Pair show ?thesis by (simp add: step_def queue_inv_def)
  next
    case StopDrain
    from le held_nonneg [of ws]
    have "int (length (items (url_queue sh))) \<le> unfinished (url_queue sh)" by simp
    from drain_acknowledges_all [OF this] le nv StopDrain Pair show ?thesis
      by (auto simp: step_def queue_inv_def)
  qed
qed

lemma queue_inv_run: "queue_inv s \<Longrightarrow> queue_inv (run p ms s)"
  by (induction ms arbitrary: s) (simp_all add: queue_inv_step)

lemma queue_inv_initial: "queue_inv (crawl_objects base, crawl_workers)"
  by (simp add: queue_inv_def crawl_objects_def crawl_workers_def put_def held_def holding_def
      numeral_2_eq_2)

text \<open>
  In every state of a session the counter of unfinished tasks covers the queued items
  and the items that workers hold, and \<^verbatim>\<open>task_done\<close> has never raised.
\<close>

lemma unfinished_covers_items:
  fixes p ms base
  defines "s \<equiv> run p ms (crawl_objects base, crawl_workers)"
  shows "int (length (items (url_queue (fst s)))) \<le> unfinished (url_queue (fst s))"
    and "i < length (snd s) \<Longrightarrow> holding (pc (snd s ! i)) \<Longrightarrow> 0 < unfinished (url_queue (fst s))"
    and "i < length (snd s) \<Longrightarrow> pc (snd s ! i) \<noteq> Failed ValueError"
proof -
  from queue_inv_run [OF queue_inv_initial, of p ms base]
  have q: "queue_inv s" by (simp add: s_def)
  then have le: "int (length (items (url_queue (fst s)))) + held (snd s)
      \<le> unfinished (url_queue (fst s))"
    by (simp add: queue_inv_def)
  with held_nonneg [of "snd s"]
  show "int (length (items (url_queue (fst s)))) \<le> unfinished (url_queue (fst s))" by simp
  show "0 < unfinished (url_queue (fst s))" if "i < length (snd s)" "holding (pc (snd s ! i))"
    using held_member [OF that(1)] that(2) le by simp
  show "pc (snd s ! i) \<noteq> Failed ValueError" if "i < length (snd s)"
    using q nth_mem [OF that] by (auto simp: queue_inv_def)
qed

end
